theory Spec2Isabelle
  imports Main "HOL-Library.Sublist"
begin

section \<open>Text primitives of the Python source\<close>

text \<open>
  A Python \<open>str\<close> is modelled as a HOL \<open>string\<close>: one \<open>char\<close> of the model is one
  unit of text, a code point below 256. The functions below are the \<open>str\<close> methods
  that \<open>newsletter_agent.py\<close> calls, written for the arguments the source passes.
\<close>

text \<open>
  \<open>s.replace(old, new)\<close>: scan from the left, replace each occurrence of \<open>old\<close>
  and continue after it (occurrences never overlap). With an empty \<open>old\<close> Python
  puts \<open>new\<close> before every character and at the end.
\<close>

function replace_from :: "string \<Rightarrow> string \<Rightarrow> string \<Rightarrow> string" where
  "replace_from old new [] = []"
| "replace_from old new (c # cs) =
     (if old \<noteq> [] \<and> prefix old (c # cs)
      then new @ replace_from old new (drop (length old) (c # cs))
      else c # replace_from old new cs)"
  by pat_completeness auto
termination
  by (relation "measure (\<lambda>(old, new, s). length s)") (auto simp: neq_Nil_conv)

definition py_replace :: "string \<Rightarrow> string \<Rightarrow> string \<Rightarrow> string" where
  "py_replace old new s =
     (if old = [] then new @ concat (map (\<lambda>c. c # new) s) else replace_from old new s)"

text \<open>
  \<open>s.strip()\<close> removes leading and trailing whitespace. \<open>isspace\<close> lists the
  whitespace characters of Python below 256: tab, line feed, vertical tab, form feed,
  carriage return, the four separators 28 to 31, the space, the next-line control 133
  and the no-break space 160.
\<close>

definition isspace :: "char \<Rightarrow> bool" where
  "isspace c =
     (let n = (of_char c :: nat)
      in (9 \<le> n \<and> n \<le> 13) \<or> (28 \<le> n \<and> n \<le> 32) \<or> n = 133 \<or> n = 160)"

definition py_strip :: "string \<Rightarrow> string" where
  "py_strip s = rev (dropWhile isspace (rev (dropWhile isspace s)))"

text \<open>
  \<open>s.lower()\<close>: the upper-case letters below 256, which are A to Z (65 to 90) and the
  accented capitals 192 to 214 and 216 to 222, are mapped to the letter 32 above; every
  other unit is kept.
\<close>

definition lower_char :: "char \<Rightarrow> char" where
  "lower_char c =
     (let n = (of_char c :: nat)
      in if (65 \<le> n \<and> n \<le> 90) \<or> (192 \<le> n \<and> n \<le> 214) \<or> (216 \<le> n \<and> n \<le> 222)
         then char_of (n + 32) else c)"

definition py_lower :: "string \<Rightarrow> string" where
  "py_lower s = map lower_char s"

text \<open>\<open>s.startswith(h)\<close>.\<close>

definition startswith :: "string \<Rightarrow> string \<Rightarrow> bool" where
  "startswith s h = prefix h s"

text \<open>
  \<open>s.split(sep)\<close> for a non-empty separator: the pieces between the occurrences of
  \<open>sep\<close>, found from the left without overlap. (Python raises \<open>ValueError\<close> for an
  empty separator; the source only passes two line feeds.)
\<close>

function py_split :: "string \<Rightarrow> string \<Rightarrow> string list" where
  "py_split sep [] = [[]]"
| "py_split sep (c # cs) =
     (if sep \<noteq> [] \<and> prefix sep (c # cs)
      then [] # py_split sep (drop (length sep) (c # cs))
      else (case py_split sep cs of
              [] \<Rightarrow> [[c]]
            | p # ps \<Rightarrow> (c # p) # ps))"
  by pat_completeness auto
termination
  by (relation "measure (\<lambda>(sep, s). length s)") (auto simp: neq_Nil_conv)

section \<open>Values, exceptions and the external services\<close>

text \<open>
  An attribute that \<open>hasattr\<close> may find missing, and a value that may be \<open>None\<close>.
\<close>

datatype 'a attr = Absent | Present 'a

datatype 'a optional = PyNone | PySome 'a

text \<open>
  Exceptions are values. \<open>Raised\<close> is any exception of a collaborator, with the
  text that \<open>str(e)\<close> gives; \<open>str\<close> of a \<open>KeyError\<close> is the key in quotes.
\<close>

datatype exn =
    KeyError string
  | ValueError string
  | AttributeError string
  | UnboundLocalError string
  | Raised string

definition quoted :: "string \<Rightarrow> string" where
  "quoted s = CHR 0x27 # s @ [CHR 0x27]"

fun str_exn :: "exn \<Rightarrow> string" where
  "str_exn (KeyError k) = quoted k"
| "str_exn (ValueError m) = m"
| "str_exn (AttributeError m) = m"
| "str_exn (UnboundLocalError m) = m"
| "str_exn (Raised m) = m"

text \<open>
  A requested tool call (\<open>tool_call.function.name\<close>, \<open>tool_call.function.arguments\<close>)
  and the reply message of the chat service (\<open>response.message\<close>), whose \<open>content\<close>
  and \<open>tool_calls\<close> the source guards with \<open>hasattr\<close> and tests for truth.
\<close>

record tool_call =
  name :: string
  arguments :: "string \<rightharpoonup> string"

record reply =
  content :: "string optional attr"
  tool_calls :: "tool_call list optional attr"

text \<open>
  The conversation holds the dictionaries built by the source (role and content) and
  the reply messages of the chat service, appended as they are.
\<close>

datatype msg = Dict string string | Reply reply

datatype style = title_style | heading_style | body_style

datatype flowable = Paragraph string style | Spacer

text \<open>
  The collaborators, over a world \<open>'w\<close> that each call may change:
  \<open>client.chat\<close>, \<open>client.web_search\<close> and \<open>client.web_fetch\<close> (the last two
  give the text \<open>str(result)\<close>, or the exception raised while the \<open>try\<close> block
  obtains and reports the result), the document backend (building the flowables and
  writing the file), the clock read through \<open>strftime\<close>, and the built-in \<open>repr\<close>
  on strings.
\<close>

record 'w services =
  chat :: "msg list \<Rightarrow> 'w \<Rightarrow> (exn + reply) \<times> 'w"
  web_search :: "string \<Rightarrow> 'w \<Rightarrow> (exn + string) \<times> 'w"
  web_fetch :: "string \<Rightarrow> 'w \<Rightarrow> (exn + string) \<times> 'w"
  build :: "string \<Rightarrow> flowable list \<Rightarrow> 'w \<Rightarrow> (exn + unit) \<times> 'w"
  strftime :: "string \<Rightarrow> 'w \<Rightarrow> string"
  repr :: "string \<Rightarrow> string"

section \<open>The agent loop: \<open>create_search_agent\<close>\<close>

definition max_iterations :: nat where
  "max_iterations = 5"

text \<open>Truth of \<open>hasattr(m, a) and m.a\<close> for a text and for a list.\<close>

fun truthy :: "'a list optional attr \<Rightarrow> bool" where
  "truthy Absent = False"
| "truthy (Present PyNone) = False"
| "truthy (Present (PySome xs)) = (xs \<noteq> [])"

fun value_of :: "'a list optional attr \<Rightarrow> 'a list" where
  "value_of (Present (PySome xs)) = xs"
| "value_of _ = []"

definition system_prompt :: string where
  "system_prompt = ''You are a tech news analyst. Focus on finding breakthrough news about AI and technology startups from TechCrunch.''"

text \<open>Lines 40 to 49; a \<open>context\<close> that is \<open>None\<close> or empty is left out.\<close>

definition initial_messages :: "string \<Rightarrow> string optional \<Rightarrow> msg list" where
  "initial_messages query context =
     [Dict ''system'' system_prompt,
      Dict ''user'' (case context of
                      PySome c \<Rightarrow> (if c \<noteq> [] then c @ [CHR 0x0A, CHR 0x0A] @ query else query)
                    | PyNone \<Rightarrow> query)]"

text \<open>
  Lines 116 to 125, the body of the \<open>try\<close> up to \<open>result\<close>: \<open>args['query']\<close>
  and \<open>args['url']\<close> raise \<open>KeyError\<close> on a missing key; an unknown tool gives
  a dictionary with the one key \<open>error\<close>, here already as its \<open>str\<close>.
\<close>

definition invoke_tool :: "'w services \<Rightarrow> tool_call \<Rightarrow> 'w \<Rightarrow> (exn + string) \<times> 'w" where
  "invoke_tool sv tc w =
     (if name tc = ''web_search'' then
        (case arguments tc ''query'' of
           None \<Rightarrow> (Inl (KeyError ''query''), w)
         | Some q \<Rightarrow> web_search sv q w)
      else if name tc = ''web_fetch'' then
        (case arguments tc ''url'' of
           None \<Rightarrow> (Inl (KeyError ''url''), w)
         | Some u \<Rightarrow> web_fetch sv u w)
      else (Inr (''{'' @ repr sv ''error'' @ '': '' @ repr sv (''Unknown tool: '' @ name tc) @ ''}''), w))"

text \<open>
  Lines 115 to 140, one tool call: the result is cut to 8000 units and appended as a
  tool message; an exception is caught and its text appended instead.
\<close>

definition tool_message :: "'w services \<Rightarrow> tool_call \<Rightarrow> 'w \<Rightarrow> msg \<times> 'w" where
  "tool_message sv tc w =
     (case invoke_tool sv tc w of
        (Inr result, w') \<Rightarrow> (Dict ''tool'' (take 8000 result), w')
      | (Inl e, w') \<Rightarrow> (Dict ''tool'' (''Error: '' @ str_exn e), w'))"

text \<open>Line 111, the \<open>for\<close> loop over the requested calls.\<close>

fun run_tool_calls :: "'w services \<Rightarrow> tool_call list \<Rightarrow> msg list \<Rightarrow> 'w \<Rightarrow> msg list \<times> 'w" where
  "run_tool_calls sv [] ms w = (ms, w)"
| "run_tool_calls sv (tc # tcs) ms w =
     (case tool_message sv tc w of
        (m, w') \<Rightarrow> run_tool_calls sv tcs (ms @ [m]) w')"

text \<open>The local variables of the loop; \<open>response\<close> is unbound before the first round.\<close>

record loop_state =
  messages :: "msg list"
  conversation_history :: "string list"
  iteration :: nat
  response :: "reply option"

text \<open>
  Lines 58 and 102 to 106: the round is counted, a non-empty text of the reply goes to
  the history, and the reply is appended to the conversation.
\<close>

definition record_reply :: "loop_state \<Rightarrow> reply \<Rightarrow> loop_state" where
  "record_reply st r = st
     \<lparr> messages := messages st @ [Reply r],
       conversation_history :=
         (if truthy (content r) then conversation_history st @ [value_of (content r)]
          else conversation_history st),
       iteration := iteration st + 1,
       response := Some r \<rparr>"

text \<open>
  Lines 57 to 143, the \<open>while\<close> loop. An exception of the chat service leaves the
  function; \<open>break\<close> and the failed loop test return the state.
\<close>

function agent_loop :: "'w services \<Rightarrow> loop_state \<Rightarrow> 'w \<Rightarrow> (exn + loop_state) \<times> 'w" where
  "agent_loop sv st w =
     (if iteration st < max_iterations then
        (case chat sv (messages st) w of
           (Inl e, w1) \<Rightarrow> (Inl e, w1)
         | (Inr r, w1) \<Rightarrow>
             (let st1 = record_reply st r
              in if truthy (tool_calls r) then
                   (case run_tool_calls sv (value_of (tool_calls r)) (messages st1) w1 of
                      (ms, w2) \<Rightarrow> agent_loop sv (st1 \<lparr> messages := ms \<rparr>) w2)
                 else (Inr st1, w1)))
      else (Inr st, w))"
  by pat_completeness auto
termination
  by (relation "measure (\<lambda>(sv, st, w). max_iterations - iteration st)")
    (auto simp: record_reply_def)

declare agent_loop.simps [simp del]

text \<open>Line 145.\<close>

definition final_content :: "loop_state \<Rightarrow> exn + string optional" where
  "final_content st =
     (case response st of
        None \<Rightarrow> Inl (UnboundLocalError (''cannot access local variable '' @ quoted ''response'' @ '' where it is not associated with a value''))
      | Some r \<Rightarrow> (case content r of Absent \<Rightarrow> Inr (PySome []) | Present v \<Rightarrow> Inr v))"

text \<open>Lines 40 to 55: the local variables before the loop.\<close>

definition initial_state :: "string \<Rightarrow> string optional \<Rightarrow> loop_state" where
  "initial_state query context =
     \<lparr> messages = initial_messages query context, conversation_history = [],
       iteration = 0, response = None \<rparr>"

definition create_search_agent ::
  "'w services \<Rightarrow> string \<Rightarrow> string optional \<Rightarrow> 'w \<Rightarrow> (exn + string optional \<times> string list) \<times> 'w" where
  "create_search_agent sv query context w =
     (case agent_loop sv (initial_state query context) w of
        (Inl e, w') \<Rightarrow> (Inl e, w')
      | (Inr st, w') \<Rightarrow>
          (case final_content st of
             Inl e \<Rightarrow> (Inl e, w')
           | Inr c \<Rightarrow> (Inr (c, conversation_history st), w')))"

section \<open>The document renderer: \<open>generate_pdf_report\<close>\<close>

text \<open>Lines 275 to 279: the nine deletions, in the order of the source.\<close>

definition strip_markup :: "string \<Rightarrow> string" where
  "strip_markup text0 =
     (let text1 = py_replace ''#'' [] (py_replace ''##'' [] (py_replace ''###'' [] text0));
          text2 = py_replace ''*'' [] (py_replace ''**'' [] text1)
      in py_replace '')'' [] (py_replace ''('' [] (py_replace '']'' [] (py_replace ''['' [] text2))))"

definition markup_chars :: "char set" where
  "markup_chars = {CHR ''#'', CHR ''*'', CHR ''['', CHR '']'', CHR ''('', CHR '')''}"

text \<open>Line 283: the lead-in tokens and the choice of style.\<close>

definition lead_in :: "string list" where
  "lead_in = [''title:'', ''source:'', ''why it'']"

definition paragraph_style :: "string \<Rightarrow> style" where
  "paragraph_style text0 =
     (if list_ex (\<lambda>h. startswith (py_lower text0) h) lead_in then heading_style else body_style)"

text \<open>
  Lines 287 to 289. The glyph is the literal of the source file, byte for byte; both
  replacements are inside the \<open>if\<close>.
\<close>

definition bullet_glyph :: string where
  "bullet_glyph = [CHR 0xC3, CHR 0xA2, CHR 0xE2, CHR 0x82, CHR 0xAC, CHR 0xC2, CHR 0xA2]"

definition convert_bullets :: "string \<Rightarrow> string" where
  "convert_bullets text0 =
     (if startswith text0 ''- ''
      then (let text1 = bullet_glyph @ '' '' @ drop 2 text0
            in py_replace (CHR 0x0A # ''- '') (CHR 0x0A # bullet_glyph @ '' '') text1)
      else text0)"

text \<open>Lines 268 to 292, the body of the loop over the paragraphs.\<close>

definition render_paragraph :: "string \<Rightarrow> flowable list" where
  "render_paragraph para =
     (if py_strip para = [] then []
      else (let text0 = strip_markup (py_strip para)
            in [Paragraph (convert_bullets text0) (paragraph_style text0)]))"

definition elements_of :: "string \<Rightarrow> string \<Rightarrow> flowable list" where
  "elements_of today content0 =
     [Paragraph ''TechCrunch AI & Startup Newsletter'' title_style,
      Paragraph (''Weekly Report - '' @ today) heading_style,
      Spacer]
     @ concat (map render_paragraph (py_split [CHR 0x0A, CHR 0x0A] content0))"

text \<open>
  \<open>generate_pdf_report\<close>: a \<open>None\<close> content has no \<open>split\<close>; the backend builds the
  document from the elements and may fail.
\<close>

definition generate_pdf_report :: "'w services \<Rightarrow> string optional \<Rightarrow> 'w \<Rightarrow> (exn + string) \<times> 'w" where
  "generate_pdf_report sv content0 w =
     (let filename = ''techcrunch_ai_newsletter_'' @ strftime sv ''%Y%m%d'' w @ ''.pdf''
      in case content0 of
           PyNone \<Rightarrow>
             (Inl (AttributeError (quoted ''NoneType'' @ '' object has no attribute '' @ quoted ''split'')), w)
         | PySome c \<Rightarrow>
             (case build sv filename (elements_of (strftime sv ''%B %d, %Y'' w) c) w of
                (Inl e, w') \<Rightarrow> (Inl e, w')
              | (Inr u, w') \<Rightarrow> (Inr filename, w')))"

section \<open>The pipeline: \<open>main\<close> and the start of the script\<close>

definition gather_query :: string where
  "gather_query = ''site:techcrunch.com artificial intelligence startups latest news''"

definition gather_context :: string where
  "gather_context = ''Find the most important AI and startup news from TechCrunch in the last week. Focus on breakthrough announcements, funding rounds, and major product launches.''"

definition rank_query :: string where
  "rank_query =
     ''Based on the news you found, identify the TOP 5 most important and breakthrough stories.\<newline>'' @
     ''    \<newline>'' @
     ''    For each story, provide:\<newline>'' @
     ''    1. Title\<newline>'' @
     ''    2. Brief summary (2-3 sentences)\<newline>'' @
     ''    3. Why it'' @ [CHR 0x27] @ ''s important\<newline>'' @
     ''    4. Source URL\<newline>'' @
     ''    \<newline>'' @
     ''    Focus on: Major funding announcements, breakthrough AI technologies, significant partnerships, and disruptive startups.''"

definition elaborate_query :: string where
  "elaborate_query =
     ''For each of the top stories you identified, create a detailed summary (4-5 sentences) that includes:\<newline>'' @
     ''    - What happened\<newline>'' @
     ''    - Who is involved\<newline>'' @
     ''    - Why it matters for the AI and startup ecosystem\<newline>'' @
     ''    - Potential impact\<newline>'' @
     ''    \<newline>'' @
     ''    Format each story clearly with the title, URL, and detailed summary.''"

definition gather_techcrunch_news :: "'w services \<Rightarrow> 'w \<Rightarrow> (exn + string optional) \<times> 'w" where
  "gather_techcrunch_news sv w =
     (case create_search_agent sv gather_query (PySome gather_context) w of
        (Inl e, w') \<Rightarrow> (Inl e, w')
      | (Inr (result, history), w') \<Rightarrow> (Inr result, w'))"

definition analyze_and_rank_news :: "'w services \<Rightarrow> string optional \<Rightarrow> 'w \<Rightarrow> (exn + string optional) \<times> 'w" where
  "analyze_and_rank_news sv news_data w =
     (case create_search_agent sv rank_query news_data w of
        (Inl e, w') \<Rightarrow> (Inl e, w')
      | (Inr (result, history), w') \<Rightarrow> (Inr result, w'))"

definition create_detailed_summaries :: "'w services \<Rightarrow> string optional \<Rightarrow> 'w \<Rightarrow> (exn + string optional) \<times> 'w" where
  "create_detailed_summaries sv ranked_news w =
     (case create_search_agent sv elaborate_query ranked_news w of
        (Inl e, w') \<Rightarrow> (Inl e, w')
      | (Inr (result, history), w') \<Rightarrow> (Inr result, w'))"

text \<open>Lines 313 to 337: the four steps; the handler prints and raises again.\<close>

definition main :: "'w services \<Rightarrow> 'w \<Rightarrow> (exn + string) \<times> 'w" where
  "main sv w =
     (case gather_techcrunch_news sv w of
        (Inl e, w1) \<Rightarrow> (Inl e, w1)
      | (Inr news_data, w1) \<Rightarrow>
          (case analyze_and_rank_news sv news_data w1 of
             (Inl e, w2) \<Rightarrow> (Inl e, w2)
           | (Inr ranked_news, w2) \<Rightarrow>
               (case create_detailed_summaries sv ranked_news w2 of
                  (Inl e, w3) \<Rightarrow> (Inl e, w3)
                | (Inr detailed_summaries, w3) \<Rightarrow> generate_pdf_report sv detailed_summaries w3)))"

text \<open>
  Lines 24 to 30 and 340 to 342, the module run as a script: \<open>environ\<close> is the
  process environment as \<open>os.getenv\<close> reads it at line 24.
\<close>

definition run_script :: "(string \<rightharpoonup> string) \<Rightarrow> 'w services \<Rightarrow> 'w \<Rightarrow> (exn + string) \<times> 'w" where
  "run_script environ sv w =
     (case environ ''OLLAMA_API_KEY'' of
        None \<Rightarrow> (Inl (ValueError ''OLLAMA_API_KEY environment variable is required''), w)
      | Some key \<Rightarrow>
          (if key = [] then (Inl (ValueError ''OLLAMA_API_KEY environment variable is required''), w)
           else main sv w))"

section \<open>Observing a run\<close>

text \<open>
  \<open>counting sv\<close> is \<open>sv\<close> with a counter beside the world: every call of the chat
  service adds one, the other collaborators leave the counter alone.
\<close>

definition counting :: "'w services \<Rightarrow> ('w \<times> nat) services" where
  "counting sv =
     \<lparr> chat = (\<lambda>ms (w, n). case chat sv ms w of (r, w') \<Rightarrow> (r, (w', Suc n))),
       web_search = (\<lambda>q (w, n). case web_search sv q w of (r, w') \<Rightarrow> (r, (w', n))),
       web_fetch = (\<lambda>u (w, n). case web_fetch sv u w of (r, w') \<Rightarrow> (r, (w', n))),
       build = (\<lambda>f es (w, n). case build sv f es w of (r, w') \<Rightarrow> (r, (w', n))),
       strftime = (\<lambda>fmt (w, n). strftime sv fmt w),
       repr = repr sv \<rparr>"

text \<open>
  A stub of the collaborators: the chat service always gives the reply \<open>r\<close>, both
  tools always give the outcome \<open>res\<close>, the backend succeeds.
\<close>

definition stub :: "reply \<Rightarrow> exn + string \<Rightarrow> unit services" where
  "stub r res =
     \<lparr> chat = (\<lambda>ms w. (Inr r, w)),
       web_search = (\<lambda>q w. (res, w)),
       web_fetch = (\<lambda>u w. (res, w)),
       build = (\<lambda>f es w. (Inr (), w)),
       strftime = (\<lambda>fmt w. ''20240101''),
       repr = quoted \<rparr>"

definition search_call :: tool_call where
  "search_call = \<lparr> name = ''web_search'', arguments = [''query'' \<mapsto> ''ai news''] \<rparr>"

definition reply_with_call :: reply where
  "reply_with_call = \<lparr> content = Present (PySome ''''), tool_calls = Present (PySome [search_call]) \<rparr>"

definition reply_done :: reply where
  "reply_done = \<lparr> content = Present (PySome ''done''), tool_calls = Present PyNone \<rparr>"

definition reply_without_text :: reply where
  "reply_without_text = \<lparr> content = Present PyNone, tool_calls = Present PyNone \<rparr>"

text \<open>The content of a tool-role message, and the replies held by a conversation.\<close>

fun tool_content :: "msg \<Rightarrow> string option" where
  "tool_content (Dict role c) = (if role = ''tool'' then Some c else None)"
| "tool_content (Reply r) = None"

fun replies :: "msg list \<Rightarrow> reply list" where
  "replies [] = []"
| "replies (Dict role c # ms) = replies ms"
| "replies (Reply r # ms) = r # replies ms"

text \<open>
  The non-empty texts of a list of replies, in order; the shape of a tool-role message
  (at most 8000 units, or the text of a caught failure); and what the loop keeps true of
  its history and of its last response.
\<close>

definition texts :: "reply list \<Rightarrow> string list" where
  "texts rs = map (\<lambda>r. value_of (content r)) (filter (\<lambda>r. truthy (content r)) rs)"

definition within_cap :: "msg \<Rightarrow> bool" where
  "within_cap m =
     (case tool_content m of None \<Rightarrow> True | Some c \<Rightarrow> length c \<le> 8000 \<or> prefix ''Error: '' c)"

definition history_inv :: "loop_state \<Rightarrow> bool" where
  "history_inv st \<longleftrightarrow>
     conversation_history st = texts (replies (messages st)) \<and>
     (case response st of
        None \<Rightarrow> replies (messages st) = []
      | Some r \<Rightarrow> replies (messages st) \<noteq> [] \<and> last (replies (messages st)) = r)"

section \<open>Notions of the specification\<close>

text \<open>
  The words of the specification, to compare with the code: a text starts with a token
  ignoring case when its first units, lowered, are the lowered token; the lines of a
  text are the pieces between its line feeds, \<open>unlines\<close> puts them together again,
  and a line that begins with the dash-space marker gets the glyph in its place.
\<close>

definition spec_starts_ignoring_case :: "string \<Rightarrow> string \<Rightarrow> bool" where
  "spec_starts_ignoring_case tok s =
     (length tok \<le> length s \<and> py_lower (take (length tok) s) = py_lower tok)"

fun lines_of :: "string \<Rightarrow> string list" where
  "lines_of [] = [[]]"
| "lines_of (c # cs) =
     (if c = CHR 0x0A then [] # lines_of cs
      else (case lines_of cs of [] \<Rightarrow> [[c]] | l # ls \<Rightarrow> (c # l) # ls))"

fun unlines :: "string list \<Rightarrow> string" where
  "unlines [] = []"
| "unlines [l] = l"
| "unlines (l # ls) = l @ CHR 0x0A # unlines ls"

definition bullet_line :: "string \<Rightarrow> string" where
  "bullet_line l = (if prefix ''- '' l then bullet_glyph @ '' '' @ drop 2 l else l)"

section \<open>Properties of the agent loop\<close>

lemma invoke_tool_counting:
  "invoke_tool (counting sv) tc (w, n) = (case invoke_tool sv tc w of (r, w') \<Rightarrow> (r, (w', n)))"
  by (simp add: invoke_tool_def counting_def split: option.splits prod.splits)

lemma tool_message_counting:
  "tool_message (counting sv) tc (w, n) = (case tool_message sv tc w of (m, w') \<Rightarrow> (m, (w', n)))"
  by (simp add: tool_message_def invoke_tool_counting split: prod.splits sum.splits)

lemma run_tool_calls_counting:
  "run_tool_calls (counting sv) tcs ms (w, n) =
     (case run_tool_calls sv tcs ms w of (ms', w') \<Rightarrow> (ms', (w', n)))"
  by (induction tcs arbitrary: ms w) (auto simp: tool_message_counting split: prod.splits)

lemma chat_counting:
  "chat (counting sv) ms (w, n) = (case chat sv ms w of (r, w') \<Rightarrow> (r, (w', Suc n)))"
  by (simp add: counting_def)

lemma agent_loop_cap: "\<not> iteration st < max_iterations \<Longrightarrow> agent_loop sv st w = (Inr st, w)"
  by (simp add: agent_loop.simps)

lemma agent_loop_raise:
  "iteration st < max_iterations \<Longrightarrow> chat sv (messages st) w = (Inl e, w1) \<Longrightarrow>
   agent_loop sv st w = (Inl e, w1)"
  by (simp add: agent_loop.simps)

lemma agent_loop_break:
  "iteration st < max_iterations \<Longrightarrow> chat sv (messages st) w = (Inr r, w1) \<Longrightarrow>
   \<not> truthy (tool_calls r) \<Longrightarrow> agent_loop sv st w = (Inr (record_reply st r), w1)"
  by (simp add: agent_loop.simps record_reply_def)

lemma agent_loop_continue:
  "iteration st < max_iterations \<Longrightarrow> chat sv (messages st) w = (Inr r, w1) \<Longrightarrow>
   truthy (tool_calls r) \<Longrightarrow>
   run_tool_calls sv (value_of (tool_calls r)) (messages st @ [Reply r]) w1 = (ms, w2) \<Longrightarrow>
   agent_loop sv st w = agent_loop sv ((record_reply st r) \<lparr> messages := ms \<rparr>) w2"
  by (subst agent_loop.simps) (simp add: record_reply_def)

lemma agent_loop_iteration:
  "agent_loop sv st w = (Inr st', w') \<Longrightarrow> iteration st \<le> iteration st' \<and>
     (iteration st \<le> max_iterations \<longrightarrow> iteration st' \<le> max_iterations)"
proof (induction "max_iterations - iteration st" arbitrary: st w)
  case 0
  then have "\<not> iteration st < max_iterations" by simp
  with 0 show ?case by (auto simp: agent_loop_cap)
next
  case (Suc k)
  then have lt: "iteration st < max_iterations" by simp
  obtain x w1 where c: "chat sv (messages st) w = (x, w1)" by (cases "chat sv (messages st) w")
  show ?case
  proof (cases x)
    case (Inl e)
    with Suc.prems lt c show ?thesis using agent_loop_raise [of st sv w e w1] by auto
  next
    case (Inr r)
    show ?thesis
    proof (cases "truthy (tool_calls r)")
      case False
      with Suc.prems lt c Inr show ?thesis
        using agent_loop_break [of st sv w r w1] by (auto simp: record_reply_def)
    next
      case True
      obtain ms w2 where t: "run_tool_calls sv (value_of (tool_calls r)) (messages st @ [Reply r]) w1 = (ms, w2)"
        by (cases "run_tool_calls sv (value_of (tool_calls r)) (messages st @ [Reply r]) w1")
      let ?st = "(record_reply st r) \<lparr> messages := ms \<rparr>"
      have it: "iteration ?st = Suc (iteration st)" by (simp add: record_reply_def)
      have e2: "agent_loop sv st w = agent_loop sv ?st w2"
        using lt c Inr True t by (intro agent_loop_continue) auto
      have k: "k = max_iterations - iteration ?st" using Suc.hyps(2) it by simp
      from Suc.prems e2 have "agent_loop sv ?st w2 = (Inr st', w')" by simp
      from Suc.hyps(1) [OF k this] it lt show ?thesis by auto
    qed
  qed
qed

lemma counted_loop:
  "agent_loop (counting sv) st (w, n) = (res, (w', n')) \<Longrightarrow>
   agent_loop sv st w = (res, w') \<and> n \<le> n' \<and> n' - n \<le> max_iterations - iteration st \<and>
   (\<forall>st'. res = Inr st' \<longrightarrow> n' = n + (iteration st' - iteration st))"
proof (induction "max_iterations - iteration st" arbitrary: st w n)
  case 0
  then have "\<not> iteration st < max_iterations" by simp
  with 0 show ?case by (auto simp: agent_loop_cap)
next
  case (Suc k)
  then have lt: "iteration st < max_iterations" by simp
  obtain x w1 where c: "chat sv (messages st) w = (x, w1)" by (cases "chat sv (messages st) w")
  then have cc: "chat (counting sv) (messages st) (w, n) = (x, (w1, Suc n))"
    by (simp add: chat_counting)
  show ?case
  proof (cases x)
    case (Inl e)
    with Suc.prems lt c cc show ?thesis
      using agent_loop_raise [of st "counting sv" "(w, n)" e "(w1, Suc n)"]
        agent_loop_raise [of st sv w e w1] by auto
  next
    case (Inr r)
    show ?thesis
    proof (cases "truthy (tool_calls r)")
      case False
      with Suc.prems lt c cc Inr show ?thesis
        using agent_loop_break [of st "counting sv" "(w, n)" r "(w1, Suc n)"]
          agent_loop_break [of st sv w r w1] by (auto simp: record_reply_def)
    next
      case True
      obtain ms w2 where t: "run_tool_calls sv (value_of (tool_calls r)) (messages st @ [Reply r]) w1 = (ms, w2)"
        by (cases "run_tool_calls sv (value_of (tool_calls r)) (messages st @ [Reply r]) w1")
      then have tc: "run_tool_calls (counting sv) (value_of (tool_calls r)) (messages st @ [Reply r]) (w1, Suc n) = (ms, (w2, Suc n))"
        by (simp add: run_tool_calls_counting)
      let ?st = "(record_reply st r) \<lparr> messages := ms \<rparr>"
      have it: "iteration ?st = Suc (iteration st)" by (simp add: record_reply_def)
      have e1: "agent_loop (counting sv) st (w, n) = agent_loop (counting sv) ?st (w2, Suc n)"
        using lt cc Inr True tc by (intro agent_loop_continue) auto
      have e2: "agent_loop sv st w = agent_loop sv ?st w2"
        using lt c Inr True t by (intro agent_loop_continue) auto
      have k: "k = max_iterations - iteration ?st" using Suc.hyps(2) it by simp
      from Suc.prems e1 have "agent_loop (counting sv) ?st (w2, Suc n) = (res, (w', n'))" by simp
      from Suc.hyps(1) [OF k this] have
        ih: "agent_loop sv ?st w2 = (res, w')" "Suc n \<le> n'" "n' - Suc n \<le> max_iterations - iteration ?st"
        "\<forall>st'. res = Inr st' \<longrightarrow> n' = Suc n + (iteration st' - iteration ?st)" by auto
      have mono: "res = Inr st' \<Longrightarrow> iteration ?st \<le> iteration st'" for st'
        using agent_loop_iteration [of sv ?st w2 st' w'] ih(1) by simp
      show ?thesis using ih e2 it lt mono by auto
    qed
  qed
qed

lemma chat_ok_loop:
  "(\<forall>ms v. \<exists>r v'. chat sv ms v = (Inr r, v')) \<Longrightarrow> \<exists>st' w'. agent_loop sv st w = (Inr st', w')"
proof (induction "max_iterations - iteration st" arbitrary: st w)
  case 0
  then have "\<not> iteration st < max_iterations" by simp
  then show ?case by (simp add: agent_loop_cap)
next
  case (Suc k)
  then have lt: "iteration st < max_iterations" by simp
  from Suc.prems obtain r w1 where c: "chat sv (messages st) w = (Inr r, w1)" by blast
  show ?case
  proof (cases "truthy (tool_calls r)")
    case False
    with lt c show ?thesis using agent_loop_break [of st sv w r w1] by simp
  next
    case True
    obtain ms w2 where t: "run_tool_calls sv (value_of (tool_calls r)) (messages st @ [Reply r]) w1 = (ms, w2)"
      by (cases "run_tool_calls sv (value_of (tool_calls r)) (messages st @ [Reply r]) w1")
    let ?st = "(record_reply st r) \<lparr> messages := ms \<rparr>"
    have it: "iteration ?st = Suc (iteration st)" by (simp add: record_reply_def)
    have e: "agent_loop sv st w = agent_loop sv ?st w2"
      using lt c True t by (intro agent_loop_continue) auto
    have k: "k = max_iterations - iteration ?st" using Suc.hyps(2) it by simp
    from Suc.hyps(1) [OF k Suc.prems] e show ?thesis by simp
  qed
qed

lemma always_tools_loop:
  "(\<forall>ms v. \<exists>r v'. chat sv ms v = (Inr r, v') \<and> truthy (tool_calls r)) \<Longrightarrow>
   iteration st \<le> max_iterations \<Longrightarrow>
   \<exists>st' w'. agent_loop sv st w = (Inr st', w') \<and> iteration st' = max_iterations"
proof (induction "max_iterations - iteration st" arbitrary: st w)
  case 0
  then have "\<not> iteration st < max_iterations" "iteration st = max_iterations" by simp_all
  then show ?case by (simp add: agent_loop_cap)
next
  case (Suc k)
  then have lt: "iteration st < max_iterations" by simp
  from Suc.prems obtain r w1 where c: "chat sv (messages st) w = (Inr r, w1)" and True: "truthy (tool_calls r)"
    by blast
  obtain ms w2 where t: "run_tool_calls sv (value_of (tool_calls r)) (messages st @ [Reply r]) w1 = (ms, w2)"
    by (cases "run_tool_calls sv (value_of (tool_calls r)) (messages st @ [Reply r]) w1")
  let ?st = "(record_reply st r) \<lparr> messages := ms \<rparr>"
  have it: "iteration ?st = Suc (iteration st)" by (simp add: record_reply_def)
  have e: "agent_loop sv st w = agent_loop sv ?st w2"
    using lt c True t by (intro agent_loop_continue) auto
  have k: "k = max_iterations - iteration ?st" using Suc.hyps(2) it by simp
  have le: "iteration ?st \<le> max_iterations" using it lt by simp
  from Suc.hyps(1) [OF k Suc.prems(1) le] e show ?case by simp
qed

lemma response_set:
  "agent_loop sv st w = (Inr st', w') \<Longrightarrow> iteration st < max_iterations \<or> response st \<noteq> None \<Longrightarrow>
   response st' \<noteq> None"
proof (induction "max_iterations - iteration st" arbitrary: st w)
  case 0
  then have "\<not> iteration st < max_iterations" by simp
  with 0 show ?case by (auto simp: agent_loop_cap)
next
  case (Suc k)
  then have lt: "iteration st < max_iterations" by simp
  obtain x w1 where c: "chat sv (messages st) w = (x, w1)" by (cases "chat sv (messages st) w")
  show ?case
  proof (cases x)
    case (Inl e)
    with Suc.prems lt c show ?thesis using agent_loop_raise [of st sv w e w1] by auto
  next
    case (Inr r)
    show ?thesis
    proof (cases "truthy (tool_calls r)")
      case False
      with Suc.prems lt c Inr show ?thesis
        using agent_loop_break [of st sv w r w1] by (auto simp: record_reply_def)
    next
      case True
      obtain ms w2 where t: "run_tool_calls sv (value_of (tool_calls r)) (messages st @ [Reply r]) w1 = (ms, w2)"
        by (cases "run_tool_calls sv (value_of (tool_calls r)) (messages st @ [Reply r]) w1")
      let ?st = "(record_reply st r) \<lparr> messages := ms \<rparr>"
      have it: "iteration ?st = Suc (iteration st)" by (simp add: record_reply_def)
      have rs: "response ?st \<noteq> None" by (simp add: record_reply_def)
      have e2: "agent_loop sv st w = agent_loop sv ?st w2"
        using lt c Inr True t by (intro agent_loop_continue) auto
      have k: "k = max_iterations - iteration ?st" using Suc.hyps(2) it by simp
      from Suc.prems e2 have "agent_loop sv ?st w2 = (Inr st', w')" by simp
      from Suc.hyps(1) [OF k this] rs show ?thesis by simp
    qed
  qed
qed

lemma final_content_ok:
  "agent_loop sv (initial_state query context) w = (Inr st, w') \<Longrightarrow> \<exists>c. final_content st = Inr c"
proof -
  assume a: "agent_loop sv (initial_state query context) w = (Inr st, w')"
  have "iteration (initial_state query context) < max_iterations" by (simp add: initial_state_def max_iterations_def)
  with a have "response st \<noteq> None" using response_set [of sv "initial_state query context" w st w'] by simp
  then show ?thesis by (auto simp: final_content_def split: option.splits attr.splits)
qed

lemma agent_rounds:
  "snd (snd (create_search_agent (counting sv) query context (w, 0))) \<le> 5"
proof -
  obtain res w' n' where a: "agent_loop (counting sv) (initial_state query context) (w, 0) = (res, (w', n'))"
    by (metis prod.exhaust)
  from counted_loop [OF a] have "n' \<le> 5" by (simp add: max_iterations_def initial_state_def)
  moreover have "snd (snd (create_search_agent (counting sv) query context (w, 0))) = n'"
    using a by (simp add: create_search_agent_def split: sum.splits)
  ultimately show ?thesis by simp
qed

lemma agent_rounds_tools:
  assumes "\<forall>ms v. \<exists>r v'. chat sv ms v = (Inr r, v') \<and> truthy (tool_calls r)"
  shows "snd (snd (create_search_agent (counting sv) query context (w, 0))) = 5 \<and>
         isl (fst (create_search_agent (counting sv) query context (w, 0))) = False"
proof -
  obtain res w' n' where a: "agent_loop (counting sv) (initial_state query context) (w, 0) = (res, (w', n'))"
    by (metis prod.exhaust)
  note c = counted_loop [OF a]
  have "iteration (initial_state query context) \<le> max_iterations" by (simp add: initial_state_def)
  from always_tools_loop [OF assms this, of w] c obtain st' where
    r: "res = Inr st'" and i: "iteration st' = max_iterations" by auto
  with c have n: "n' = 5" by (simp add: initial_state_def max_iterations_def)
  from final_content_ok [of "counting sv" query "context" "(w, 0)" st' "(w', n')"] a r
  obtain fc where "final_content st' = Inr fc" by auto
  with a r n show ?thesis by (simp add: create_search_agent_def)
qed

lemma final_content_record_reply: "\<exists>c. final_content (record_reply st r) = Inr c"
  by (simp add: final_content_def record_reply_def split: attr.splits)

lemma loop_exit:
  "agent_loop sv st w = (Inr st', w') \<Longrightarrow> iteration st \<le> max_iterations \<Longrightarrow>
   iteration st' = max_iterations \<or> (\<exists>r. response st' = Some r \<and> \<not> truthy (tool_calls r))"
proof (induction "max_iterations - iteration st" arbitrary: st w)
  case 0
  then have "\<not> iteration st < max_iterations" "iteration st = max_iterations" by simp_all
  with 0 show ?case by (auto simp: agent_loop_cap)
next
  case (Suc k)
  then have lt: "iteration st < max_iterations" by simp
  obtain x w1 where c: "chat sv (messages st) w = (x, w1)" by (cases "chat sv (messages st) w")
  show ?case
  proof (cases x)
    case (Inl e)
    with Suc.prems lt c show ?thesis using agent_loop_raise [of st sv w e w1] by auto
  next
    case (Inr r)
    show ?thesis
    proof (cases "truthy (tool_calls r)")
      case False
      with Suc.prems lt c Inr show ?thesis
        using agent_loop_break [of st sv w r w1] by (auto simp: record_reply_def)
    next
      case True
      obtain ms w2 where t: "run_tool_calls sv (value_of (tool_calls r)) (messages st @ [Reply r]) w1 = (ms, w2)"
        by (cases "run_tool_calls sv (value_of (tool_calls r)) (messages st @ [Reply r]) w1")
      let ?st = "(record_reply st r) \<lparr> messages := ms \<rparr>"
      have it: "iteration ?st = Suc (iteration st)" by (simp add: record_reply_def)
      have e2: "agent_loop sv st w = agent_loop sv ?st w2"
        using lt c Inr True t by (intro agent_loop_continue) auto
      have k: "k = max_iterations - iteration ?st" using Suc.hyps(2) it by simp
      have le: "iteration ?st \<le> max_iterations" using it lt by simp
      from Suc.prems e2 have "agent_loop sv ?st w2 = (Inr st', w')" by simp
      from Suc.hyps(1) [OF k this le] show ?thesis .
    qed
  qed
qed

lemma first_round_break:
  assumes "chat sv (initial_messages query context) w = (Inr r, w1)" "\<not> truthy (tool_calls r)"
  shows "snd (create_search_agent (counting sv) query context (w, 0)) = (w1, 1)"
proof -
  let ?st = "initial_state query context"
  have lt: "iteration ?st < max_iterations" by (simp add: initial_state_def max_iterations_def)
  have c: "chat (counting sv) (messages ?st) (w, 0) = (Inr r, (w1, 1))"
    using assms(1) by (simp add: chat_counting initial_state_def)
  have "agent_loop (counting sv) ?st (w, 0) = (Inr (record_reply ?st r), (w1, 1))"
    using lt c assms(2) by (rule agent_loop_break)
  then show ?thesis
    using final_content_record_reply [of ?st r] by (auto simp: create_search_agent_def)
qed

lemma tool_failure_message:
  "invoke_tool sv tc w = (Inl e, w') \<Longrightarrow>
   run_tool_calls sv (tc # tcs) ms w =
     run_tool_calls sv tcs (ms @ [Dict ''tool'' (''Error: '' @ str_exn e)]) w'"
  by (simp add: tool_message_def)

lemma chat_ok_agent:
  assumes "\<forall>ms v. \<exists>r v'. chat sv ms v = (Inr r, v')"
  shows "isl (fst (create_search_agent sv query context w)) = False"
proof -
  from chat_ok_loop [OF assms, of "initial_state query context" w]
  obtain st' w' where a: "agent_loop sv (initial_state query context) w = (Inr st', w')" by blast
  from final_content_ok [OF a] obtain c where "final_content st' = Inr c" by blast
  with a show ?thesis by (simp add: create_search_agent_def)
qed

lemma agent_loop_invariant:
  assumes brk: "\<And>st r. I st \<Longrightarrow> I (record_reply st r)"
    and cont: "\<And>st r ms w1 w2. I st \<Longrightarrow>
        run_tool_calls sv (value_of (tool_calls r)) (messages st @ [Reply r]) w1 = (ms, w2) \<Longrightarrow>
        I ((record_reply st r) \<lparr> messages := ms \<rparr>)"
  shows "agent_loop sv st w = (Inr st', w') \<Longrightarrow> I st \<Longrightarrow> I st'"
proof (induction "max_iterations - iteration st" arbitrary: st w)
  case 0
  then have "\<not> iteration st < max_iterations" by simp
  with 0 show ?case by (auto simp: agent_loop_cap)
next
  case (Suc k)
  then have lt: "iteration st < max_iterations" by simp
  obtain x w1 where c: "chat sv (messages st) w = (x, w1)" by (cases "chat sv (messages st) w")
  show ?case
  proof (cases x)
    case (Inl e)
    with Suc.prems lt c show ?thesis using agent_loop_raise [of st sv w e w1] by auto
  next
    case (Inr r)
    show ?thesis
    proof (cases "truthy (tool_calls r)")
      case False
      with Suc.prems lt c Inr show ?thesis
        using agent_loop_break [of st sv w r w1] brk [of st r] by auto
    next
      case True
      obtain ms w2 where t: "run_tool_calls sv (value_of (tool_calls r)) (messages st @ [Reply r]) w1 = (ms, w2)"
        by (cases "run_tool_calls sv (value_of (tool_calls r)) (messages st @ [Reply r]) w1")
      let ?st = "(record_reply st r) \<lparr> messages := ms \<rparr>"
      have it: "iteration ?st = Suc (iteration st)" by (simp add: record_reply_def)
      have e2: "agent_loop sv st w = agent_loop sv ?st w2"
        using lt c Inr True t by (intro agent_loop_continue) auto
      have k: "k = max_iterations - iteration ?st" using Suc.hyps(2) it by simp
      from Suc.prems e2 have "agent_loop sv ?st w2 = (Inr st', w')" by simp
      from Suc.hyps(1) [OF k this cont [OF Suc.prems(2) t]] show ?thesis .
    qed
  qed
qed

lemma replies_append: "replies (xs @ ys) = replies xs @ replies ys"
  by (induction xs rule: replies.induct) auto

lemma tool_message_dict: "\<exists>c. fst (tool_message sv tc w) = Dict ''tool'' c"
  by (simp add: tool_message_def split: prod.splits sum.splits)

lemma tool_message_within_cap: "within_cap (fst (tool_message sv tc w))"
  by (simp add: tool_message_def within_cap_def split: prod.splits sum.splits)

lemma run_tool_calls_replies:
  "run_tool_calls sv tcs ms w = (ms', w') \<Longrightarrow> replies ms' = replies ms"
proof (induction tcs arbitrary: ms w)
  case Nil
  then show ?case by simp
next
  case (Cons tc tcs)
  obtain m w1 where t: "tool_message sv tc w = (m, w1)" by (cases "tool_message sv tc w")
  with tool_message_dict [of sv tc w] obtain c where "m = Dict ''tool'' c" by auto
  with Cons t show ?case by (auto simp: replies_append)
qed

lemma run_tool_calls_within_cap:
  "run_tool_calls sv tcs ms w = (ms', w') \<Longrightarrow> \<forall>m\<in>set ms. within_cap m \<Longrightarrow> \<forall>m\<in>set ms'. within_cap m"
proof (induction tcs arbitrary: ms w)
  case Nil
  then show ?case by simp
next
  case (Cons tc tcs)
  obtain m w1 where t: "tool_message sv tc w = (m, w1)" by (cases "tool_message sv tc w")
  with tool_message_within_cap [of sv tc w] have "within_cap m" by simp
  with Cons.prems(2) have "\<forall>x\<in>set (ms @ [m]). within_cap x" by simp
  with Cons.IH [of "ms @ [m]" w1] Cons.prems(1) t show ?case by simp
qed

lemma history_inv_loop:
  "agent_loop sv st w = (Inr st', w') \<Longrightarrow> history_inv st \<Longrightarrow> history_inv st'"
proof (rule agent_loop_invariant [where I = history_inv and sv = sv])
  show "history_inv (record_reply st r)" if "history_inv st" for st r
    using that by (simp add: history_inv_def record_reply_def replies_append texts_def)
  show "history_inv ((record_reply st r) \<lparr> messages := ms \<rparr>)"
    if "history_inv st" "run_tool_calls sv (value_of (tool_calls r)) (messages st @ [Reply r]) w1 = (ms, w2)"
    for st r ms w1 w2
    using that run_tool_calls_replies [OF that(2)]
    by (simp add: history_inv_def record_reply_def replies_append texts_def)
qed

lemma within_cap_loop:
  "agent_loop sv st w = (Inr st', w') \<Longrightarrow> \<forall>m\<in>set (messages st). within_cap m \<Longrightarrow>
   \<forall>m\<in>set (messages st'). within_cap m"
proof (rule agent_loop_invariant [where I = "\<lambda>s. \<forall>m\<in>set (messages s). within_cap m" and sv = sv])
  show "\<forall>m\<in>set (messages (record_reply st r)). within_cap m"
    if "\<forall>m\<in>set (messages st). within_cap m" for st r
    using that by (simp add: record_reply_def within_cap_def)
  show "\<forall>m\<in>set (messages ((record_reply st r) \<lparr> messages := ms \<rparr>)). within_cap m"
    if "\<forall>m\<in>set (messages st). within_cap m"
      "run_tool_calls sv (value_of (tool_calls r)) (messages st @ [Reply r]) w1 = (ms, w2)"
    for st r ms w1 w2
  proof -
    from that(1) have "\<forall>m\<in>set (messages st @ [Reply r]). within_cap m"
      by (simp add: within_cap_def)
    from run_tool_calls_within_cap [OF that(2) this] show ?thesis by simp
  qed
qed

lemma create_search_agent_returns:
  assumes "create_search_agent sv query context w = (Inr (c, h), w')"
  shows "\<exists>st. agent_loop sv (initial_state query context) w = (Inr st, w') \<and>
           replies (messages st) \<noteq> [] \<and>
           h = texts (replies (messages st)) \<and>
           c = (case content (last (replies (messages st))) of
                  Absent \<Rightarrow> PySome [] | Present v \<Rightarrow> v)"
proof -
  from assms obtain st where a: "agent_loop sv (initial_state query context) w = (Inr st, w')"
    and f: "final_content st = Inr c" and h: "h = conversation_history st"
    by (auto simp: create_search_agent_def split: prod.splits sum.splits)
  have "history_inv (initial_state query context)"
    by (simp add: history_inv_def initial_state_def initial_messages_def texts_def)
  from history_inv_loop [OF a this] have i: "history_inv st" .
  from f obtain r where r: "response st = Some r"
    by (auto simp: final_content_def split: option.splits)
  with i f h have "replies (messages st) \<noteq> [] \<and> h = texts (replies (messages st)) \<and>
           c = (case content (last (replies (messages st))) of
                  Absent \<Rightarrow> PySome [] | Present v \<Rightarrow> v)"
    by (auto simp: history_inv_def final_content_def split: attr.splits)
  with a show ?thesis by blast
qed

text \<open>
  C1. Whatever the collaborators do, one call of \<open>create_search_agent\<close> calls the
  chat service at most 5 times (the function is total: the loop always ends); and when
  the chat service answers every call with a reply that requests tool calls, the chat
  service is called exactly 5 times and the function returns normally.
\<close>

theorem at_most_five_rounds:
  "snd (snd (create_search_agent (counting sv) query context (w, 0))) \<le> 5 \<and>
   ((\<forall>ms v. \<exists>r v'. chat sv ms v = (Inr r, v') \<and> truthy (tool_calls r)) \<longrightarrow>
      snd (snd (create_search_agent (counting sv) query context (w, 0))) = 5 \<and>
      isl (fst (create_search_agent (counting sv) query context (w, 0))) = False)"
  using agent_rounds [of sv query "context" w] agent_rounds_tools [of sv query "context" w] by blast

theorem at_most_five_rounds_witness:
  "snd (snd (create_search_agent (counting (stub reply_with_call (Inl (Raised ''timeout''))))
      ''q'' PyNone ((), 0))) = 5 \<and>
   isl (fst (create_search_agent (counting (stub reply_with_call (Inl (Raised ''timeout''))))
      ''q'' PyNone ((), 0))) = False"
proof -
  have h: "\<forall>ms v. \<exists>r v'. chat (stub reply_with_call (Inl (Raised ''timeout''))) ms v = (Inr r, v') \<and>
             truthy (tool_calls r)"
    by (simp add: stub_def reply_with_call_def)
  from at_most_five_rounds [of "stub reply_with_call (Inl (Raised ''timeout''))" "''q''" PyNone "()"] h
  show ?thesis by blast
qed

text \<open>
  C2. A tool call whose invocation raises is caught for that call alone: a tool-role
  message \<open>Error: \<close> followed by the text of the failure is appended and the remaining
  calls of the round go on; after the calls of a round the loop goes on with the next
  round on the extended conversation; and as long as the chat service itself does not
  fail, \<open>create_search_agent\<close> returns normally, whatever the tools do.
\<close>

theorem tool_failure_caught:
  "(invoke_tool sv tc w = (Inl e, w') \<longrightarrow>
      run_tool_calls sv (tc # tcs) ms w =
        run_tool_calls sv tcs (ms @ [Dict ''tool'' (''Error: '' @ str_exn e)]) w') \<and>
   (iteration st < max_iterations \<and> chat sv (messages st) w = (Inr r, w1) \<and> truthy (tool_calls r) \<and>
    run_tool_calls sv (value_of (tool_calls r)) (messages st @ [Reply r]) w1 = (ms', w2) \<longrightarrow>
      agent_loop sv st w = agent_loop sv ((record_reply st r) \<lparr> messages := ms' \<rparr>) w2) \<and>
   ((\<forall>ms v. \<exists>r v'. chat sv ms v = (Inr r, v')) \<longrightarrow>
      isl (fst (create_search_agent sv query context w)) = False)"
  using tool_failure_message [of sv tc w e w' tcs ms] agent_loop_continue [of st sv w r w1 ms' w2]
    chat_ok_agent [of sv query "context" w] by blast

theorem tool_failure_caught_witness:
  "run_tool_calls (stub reply_with_call (Inl (Raised ''timeout''))) [search_call] [] () =
     ([Dict ''tool'' ''Error: timeout''], ()) \<and>
   isl (fst (create_search_agent (stub reply_with_call (Inl (Raised ''timeout''))) ''q'' PyNone ())) = False"
proof -
  let ?sv = "stub reply_with_call (Inl (Raised ''timeout''))"
  have a: "invoke_tool ?sv search_call () = (Inl (Raised ''timeout''), ())"
    by (simp add: invoke_tool_def stub_def search_call_def)
  have b: "\<forall>ms v. \<exists>r v'. chat ?sv ms v = (Inr r, v')" by (simp add: stub_def)
  from tool_failure_caught [of ?sv search_call "()" "Raised ''timeout''" "()" "[]" "[]" _ _ _ _ _ "''q''" PyNone] a b
  show ?thesis by simp
qed

text \<open>
  C3. What \<open>create_search_agent\<close> returns: the history is the non-empty texts of the
  replies in order, and the final content is the \<open>content\<close> of the last reply as it
  is, the empty string only when the attribute is missing. At a reply whose
  \<open>content\<close> is \<open>None\<close> the function returns \<open>None\<close>, not the empty string.
\<close>

theorem reply_without_text_returns_none:
  "create_search_agent (stub reply_without_text (Inr [])) ''q'' PyNone () = (Inr (PyNone, []), ())"
proof -
  let ?sv = "stub reply_without_text (Inr [])"
  let ?st = "initial_state ''q'' PyNone"
  have a: "iteration ?st < max_iterations" by (simp add: initial_state_def max_iterations_def)
  have b: "chat ?sv (messages ?st) () = (Inr reply_without_text, ())" by (simp add: stub_def)
  have c: "\<not> truthy (tool_calls reply_without_text)" by (simp add: reply_without_text_def)
  have "agent_loop ?sv ?st () = (Inr (record_reply ?st reply_without_text), ())"
    using a b c by (rule agent_loop_break)
  then show ?thesis
    by (simp add: create_search_agent_def final_content_def record_reply_def
        reply_without_text_def initial_state_def)
qed

text \<open>
  C4. A reply that requests no tool calls ends the loop right after that round, with
  the world as the chat call left it; a loop that returns has either reached the cap
  or received such a reply; and a reply without tool calls in the first round means
  exactly one call of the chat service.
\<close>

theorem no_tool_calls_ends_loop:
  "(iteration st < max_iterations \<and> chat sv (messages st) w = (Inr r, w1) \<and> \<not> truthy (tool_calls r) \<longrightarrow>
      agent_loop sv st w = (Inr (record_reply st r), w1)) \<and>
   (agent_loop sv st w = (Inr st', w') \<and> iteration st \<le> max_iterations \<longrightarrow>
      iteration st' = max_iterations \<or> (\<exists>r'. response st' = Some r' \<and> \<not> truthy (tool_calls r'))) \<and>
   (chat sv (initial_messages query context) w = (Inr r, w1) \<and> \<not> truthy (tool_calls r) \<longrightarrow>
      snd (create_search_agent (counting sv) query context (w, 0)) = (w1, 1))"
  using agent_loop_break [of st sv w r w1] loop_exit [of sv st w st' w']
    first_round_break [of sv query "context" w r w1] by blast

theorem no_tool_calls_ends_loop_witness:
  "agent_loop (stub reply_done (Inr [])) (initial_state ''q'' PyNone) () =
     (Inr (record_reply (initial_state ''q'' PyNone) reply_done), ()) \<and>
   snd (create_search_agent (counting (stub reply_done (Inr []))) ''q'' PyNone ((), 0)) = ((), 1)"
proof -
  let ?sv = "stub reply_done (Inr [])"
  let ?st = "initial_state ''q'' PyNone"
  have a: "iteration ?st < max_iterations" by (simp add: initial_state_def max_iterations_def)
  have b: "chat ?sv (messages ?st) () = (Inr reply_done, ())" by (simp add: stub_def)
  have b': "chat ?sv (initial_messages ''q'' PyNone) () = (Inr reply_done, ())" by (simp add: stub_def)
  have c: "\<not> truthy (tool_calls reply_done)" by (simp add: reply_done_def)
  from no_tool_calls_ends_loop [of ?st ?sv "()" reply_done "()" _ _ "''q''" PyNone] a b b' c
  show ?thesis by blast
qed

text \<open>
  C5, for the messages built from a tool result. A tool call that returns a result is
  appended as a tool-role message
  holding the first 8000 units of the result's text: at most 8000 units, and exactly
  8000 when the text is longer. Every tool-role message of the conversation that
  \<open>create_search_agent\<close> builds is such a message or the text of a caught failure.
\<close>

theorem tool_result_truncated:
  "(invoke_tool sv tc w = (Inr result, w') \<longrightarrow>
      tool_message sv tc w = (Dict ''tool'' (take 8000 result), w') \<and>
      length (take 8000 result) \<le> 8000 \<and>
      (8000 < length result \<longrightarrow> length (take 8000 result) = 8000)) \<and>
   (agent_loop sv (initial_state query context) w = (Inr st', w'') \<longrightarrow>
      list_all within_cap (messages st'))"
proof -
  have "list_all within_cap (messages (initial_state query context))"
    by (simp add: initial_state_def initial_messages_def within_cap_def)
  then show ?thesis
    using within_cap_loop [of sv "initial_state query context" w st' w'']
    by (auto simp: tool_message_def list_all_iff)
qed

theorem tool_result_truncated_witness:
  "tool_message (stub reply_done (Inr (replicate 9000 CHR ''x''))) search_call () =
     (Dict ''tool'' (replicate 8000 CHR ''x''), ()) \<and>
   length (take 8000 (replicate 9000 CHR ''x'')) = 8000 \<and>
   list_all within_cap (messages (record_reply (initial_state ''q'' PyNone) reply_done))"
proof -
  let ?sv = "stub reply_done (Inr (replicate 9000 CHR ''x''))"
  let ?st = "initial_state ''q'' PyNone"
  have a: "invoke_tool ?sv search_call () = (Inr (replicate 9000 CHR ''x''), ())"
    by (simp add: invoke_tool_def stub_def search_call_def)
  have "iteration ?st < max_iterations" by (simp add: initial_state_def max_iterations_def)
  moreover have "chat ?sv (messages ?st) () = (Inr reply_done, ())" by (simp add: stub_def)
  moreover have "\<not> truthy (tool_calls reply_done)" by (simp add: reply_done_def)
  ultimately have b: "agent_loop ?sv ?st () = (Inr (record_reply ?st reply_done), ())"
    by (rule agent_loop_break)
  from tool_result_truncated [of ?sv search_call "()" "replicate 9000 CHR ''x''" "()" "''q''" PyNone
      "record_reply ?st reply_done" "()"] a b
  show ?thesis by simp
qed

text \<open>
  C5, for every tool-role message. The bound does not hold for the message of a caught
  failure, which is not cut: a failure text of 8000 units gives a tool-role message of
  8007 units.
\<close>

theorem long_error_message_counterexample:
  "tool_content (fst (tool_message (stub reply_with_call (Inl (Raised (replicate 8000 CHR ''x''))))
      search_call ())) = Some (''Error: '' @ replicate 8000 CHR ''x'') \<and>
   \<not> length (''Error: '' @ replicate 8000 CHR ''x'') \<le> 8000"
  by (simp add: tool_message_def invoke_tool_def stub_def search_call_def)

section \<open>Properties of the renderer\<close>

subsection \<open>Facts about replacement\<close>

lemma replace_from_delete_subset: "set (replace_from old [] s) \<subseteq> set s"
proof (induction old "[] :: string" s rule: replace_from.induct)
  case (1 old)
  show ?case by simp
next
  case (2 old c cs)
  show ?case
  proof (cases "old \<noteq> [] \<and> prefix old (c # cs)")
    case True
    with 2 have "set (replace_from old [] (drop (length old) (c # cs))) \<subseteq> set (drop (length old) (c # cs))"
      by simp
    also have "\<dots> \<subseteq> set (c # cs)" by (rule set_drop_subset)
    finally show ?thesis using True by simp
  next
    case False
    with 2 show ?thesis by auto
  qed
qed

lemma replace_from_single: "replace_from [x] [] s = filter (\<lambda>c. c \<noteq> x) s"
  by (induction s) auto

lemma replace_from_absent:
  "set old \<inter> set s = {} \<Longrightarrow> replace_from old new s = s"
proof (induction s)
  case Nil
  show ?case by simp
next
  case (Cons c cs)
  have "\<not> (old \<noteq> [] \<and> prefix old (c # cs))"
  proof
    assume a: "old \<noteq> [] \<and> prefix old (c # cs)"
    then obtain y ys where old: "old = y # ys" by (cases old) auto
    with a have "y = c" by simp
    with old Cons.prems show False by auto
  qed
  then have "replace_from old new (c # cs) = c # replace_from old new cs"
    by (simp only: replace_from.simps if_False)
  moreover from Cons.prems have "set old \<inter> set cs = {}" by auto
  ultimately show ?case using Cons.IH by simp
qed

lemma py_replace_delete_subset: "old \<noteq> [] \<Longrightarrow> set (py_replace old [] s) \<subseteq> set s"
  by (simp add: py_replace_def replace_from_delete_subset)

lemma py_replace_single: "py_replace [x] [] s = filter (\<lambda>c. c \<noteq> x) s"
  by (simp add: py_replace_def replace_from_single)

lemma py_replace_absent:
  "old \<noteq> [] \<Longrightarrow> set old \<inter> set s = {} \<Longrightarrow> py_replace old new s = s"
  by (simp add: py_replace_def replace_from_absent)

lemma strip_markup_filter:
  "strip_markup s =
     filter (\<lambda>c. c \<noteq> CHR '')'') (filter (\<lambda>c. c \<noteq> CHR ''('') (filter (\<lambda>c. c \<noteq> CHR '']'')
       (filter (\<lambda>c. c \<noteq> CHR ''['') (filter (\<lambda>c. c \<noteq> CHR ''*'') (py_replace ''**'' []
         (filter (\<lambda>c. c \<noteq> CHR ''#'') (py_replace ''##'' [] (py_replace ''###'' [] s))))))))"
  by (simp add: strip_markup_def py_replace_single Let_def)

lemma strip_markup_subset: "set (strip_markup s) \<subseteq> set s"
proof -
  have a: "set (py_replace ''##'' [] (py_replace ''###'' [] s)) \<subseteq> set s"
    using py_replace_delete_subset [of "''##''" "py_replace ''###'' [] s"]
      py_replace_delete_subset [of "''###''" s] by auto
  have b: "set (py_replace ''**'' [] t) \<subseteq> set t" for t
    by (rule py_replace_delete_subset) simp
  show ?thesis
    unfolding strip_markup_filter using a b [of "filter (\<lambda>c. c \<noteq> CHR ''#'') (py_replace ''##'' [] (py_replace ''###'' [] s))"]
    by auto
qed

lemma strip_markup_no_markup: "set (strip_markup s) \<inter> markup_chars = {}"
proof -
  let ?t = "filter (\<lambda>c. c \<noteq> CHR ''#'') (py_replace ''##'' [] (py_replace ''###'' [] s))"
  have h: "CHR ''#'' \<notin> set ?t" by simp
  have "set (py_replace ''**'' [] ?t) \<subseteq> set ?t"
    by (rule py_replace_delete_subset) simp
  with h have "CHR ''#'' \<notin> set (py_replace ''**'' [] ?t)" by blast
  then show ?thesis
    unfolding strip_markup_filter markup_chars_def by auto
qed

lemma strip_markup_clean: "set s \<inter> markup_chars = {} \<Longrightarrow> strip_markup s = s"
proof -
  assume a: "set s \<inter> markup_chars = {}"
  have r: "py_replace old [] s = s" if "old \<noteq> []" "set old \<subseteq> markup_chars" for old
    using that a by (intro py_replace_absent) auto
  have "py_replace ''###'' [] s = s" "py_replace ''##'' [] s = s" "py_replace ''#'' [] s = s"
    "py_replace ''**'' [] s = s" "py_replace ''*'' [] s = s" "py_replace ''['' [] s = s"
    "py_replace '']'' [] s = s" "py_replace ''('' [] s = s" "py_replace '')'' [] s = s"
    by (rule r; simp add: markup_chars_def)+
  then show ?thesis by (simp add: strip_markup_def)
qed

text \<open>
  C10. The markup-stripping step leaves none of the characters \<open>#\<close>, \<open>*\<close>, \<open>[\<close>,
  \<open>]\<close>, \<open>(\<close>, \<open>)\<close> in the text, and stripping its own output again changes nothing.
\<close>

theorem strip_markup_idempotent:
  "set (strip_markup s) \<inter> markup_chars = {} \<and> strip_markup (strip_markup s) = strip_markup s"
  using strip_markup_no_markup [of s] strip_markup_clean [of "strip_markup s"] by simp

subsection \<open>The style of a paragraph\<close>

lemma lower_tokens: "\<forall>h\<in>set lead_in. py_lower h = h"
  by (simp add: lead_in_def py_lower_def lower_char_def)

lemma prefix_map_take:
  "prefix h (map f s) \<longleftrightarrow> length h \<le> length s \<and> map f (take (length h) s) = h"
  by (metis length_map prefix_length_le take_is_prefix take_map prefix_def append_eq_conv_conj)

lemma startswith_lower_spec:
  "h \<in> set lead_in \<Longrightarrow> startswith (py_lower s) h \<longleftrightarrow> spec_starts_ignoring_case h s"
  using lower_tokens prefix_map_take [of h lower_char s]
  by (auto simp: startswith_def spec_starts_ignoring_case_def py_lower_def)

lemma paragraph_style_spec:
  "paragraph_style s = (if (\<exists>h\<in>set lead_in. spec_starts_ignoring_case h s) then heading_style else body_style)"
  using startswith_lower_spec [of _ s] by (auto simp: paragraph_style_def list_ex_iff)

text \<open>
  C7. A paragraph that is not empty after trimming is emitted once, and its style is
  the heading style if and only if its text after markup stripping starts, ignoring
  case, with one of the tokens \<open>title:\<close>, \<open>source:\<close>, \<open>why it\<close>; otherwise it is
  the body style.
\<close>

theorem paragraph_heading_iff:
  assumes "py_strip para \<noteq> []"
  shows "render_paragraph para =
           [Paragraph (convert_bullets (strip_markup (py_strip para)))
              (if (\<exists>h\<in>set lead_in. spec_starts_ignoring_case h (strip_markup (py_strip para)))
               then heading_style else body_style)]"
  using assms by (simp add: render_paragraph_def paragraph_style_spec)

theorem paragraph_heading_iff_witness:
  "py_strip ''Title: Example'' \<noteq> [] \<and>
   render_paragraph ''Title: Example'' =
     [Paragraph (convert_bullets (strip_markup (py_strip ''Title: Example''))) heading_style] \<and>
   render_paragraph ''Title: Example'' = [Paragraph ''Title: Example'' heading_style]"
proof -
  have h: "py_strip ''Title: Example'' \<noteq> []" by code_simp
  have c: "\<exists>h\<in>set lead_in. spec_starts_ignoring_case h (strip_markup (py_strip ''Title: Example''))"
    by code_simp
  have e: "render_paragraph ''Title: Example'' = [Paragraph ''Title: Example'' heading_style]"
    by code_simp
  from paragraph_heading_iff [OF h] c
  have "render_paragraph ''Title: Example'' =
     [Paragraph (convert_bullets (strip_markup (py_strip ''Title: Example''))) heading_style]"
    by simp
  with h e show ?thesis by simp
qed

subsection \<open>Bullet lines\<close>

lemma lines_of_ne: "lines_of s \<noteq> []"
  by (cases s) (auto split: list.splits)

lemma unlines_app_hd: "unlines ((a @ l) # ls) = a @ unlines (l # ls)"
  by (cases ls) auto

lemma unlines_cons_hd: "unlines ((c # l) # ls) = c # unlines (l # ls)"
  using unlines_app_hd [of "[c]" l ls] by simp

lemma hd_lines_of: "hd (lines_of s) = takeWhile (\<lambda>c. c \<noteq> CHR 0x0A) s"
  by (induction s) (auto split: list.splits simp: lines_of_ne)

lemma prefix_takeWhile: "\<forall>c\<in>set p. P c \<Longrightarrow> prefix p (takeWhile P s) \<longleftrightarrow> prefix p s"
proof (induction p arbitrary: s)
  case Nil
  show ?case by simp
next
  case (Cons a p)
  then show ?case by (cases s) auto
qed

lemma hd_lines_prefix: "prefix ''- '' (hd (lines_of s)) \<longleftrightarrow> prefix ''- '' s"
  unfolding hd_lines_of by (rule prefix_takeWhile) simp

lemma lines_of_append:
  "CHR 0x0A \<notin> set p \<Longrightarrow> lines_of (p @ s) = (p @ hd (lines_of s)) # tl (lines_of s)"
  by (induction p) (auto simp: lines_of_ne)

lemma replace_from_append:
  "old \<noteq> [] \<Longrightarrow> hd old \<notin> set p \<Longrightarrow> replace_from old new (p @ s) = p @ replace_from old new s"
proof (induction p)
  case Nil
  show ?case by simp
next
  case (Cons a p)
  then have "\<not> prefix old (a # p @ s)" by (cases old) auto
  with Cons show ?case by simp
qed

lemma py_replace_append:
  "old \<noteq> [] \<Longrightarrow> hd old \<notin> set p \<Longrightarrow> py_replace old new (p @ s) = p @ py_replace old new s"
  by (simp add: py_replace_def replace_from_append)

lemma strip_markup_append:
  assumes "set p \<inter> markup_chars = {}"
  shows "strip_markup (p @ s) = p @ strip_markup s"
proof -
  have r: "py_replace old [] (p @ t) = p @ py_replace old [] t"
    if "old \<noteq> []" "hd old \<in> markup_chars" for old t
    using that assms by (intro py_replace_append) auto
  have "py_replace ''###'' [] (p @ t) = p @ py_replace ''###'' [] t"
    "py_replace ''##'' [] (p @ t) = p @ py_replace ''##'' [] t"
    "py_replace ''#'' [] (p @ t) = p @ py_replace ''#'' [] t"
    "py_replace ''**'' [] (p @ t) = p @ py_replace ''**'' [] t"
    "py_replace ''*'' [] (p @ t) = p @ py_replace ''*'' [] t"
    "py_replace ''['' [] (p @ t) = p @ py_replace ''['' [] t"
    "py_replace '']'' [] (p @ t) = p @ py_replace '']'' [] t"
    "py_replace ''('' [] (p @ t) = p @ py_replace ''('' [] t"
    "py_replace '')'' [] (p @ t) = p @ py_replace '')'' [] t" for t
    by (rule r; simp add: markup_chars_def)+
  then show ?thesis by (simp add: strip_markup_def)
qed

lemma marker_survives: "startswith s ''- '' \<Longrightarrow> startswith (strip_markup s) ''- ''"
proof -
  assume "startswith s ''- ''"
  then obtain r where "s = ''- '' @ r" by (auto simp: startswith_def prefix_def)
  moreover have "strip_markup (''- '' @ r) = ''- '' @ strip_markup r"
    by (rule strip_markup_append) (simp add: markup_chars_def)
  ultimately show ?thesis by (simp add: startswith_def)
qed

lemma bullet_line_marker: "bullet_line (CHR ''-'' # CHR '' '' # x) = bullet_glyph @ CHR '' '' # x"
  by (simp add: bullet_line_def)

lemma replace_from_lines:
  "old = CHR 0x0A # ''- '' \<Longrightarrow> new = CHR 0x0A # bullet_glyph @ '' '' \<Longrightarrow>
   replace_from old new s = unlines (hd (lines_of s) # map bullet_line (tl (lines_of s)))"
proof (induction old new s rule: replace_from.induct)
  case (1 old new)
  show ?case by simp
next
  case (2 old new c cs)
  obtain h t where ht: "lines_of cs = h # t"
    using lines_of_ne [of cs] by (cases "lines_of cs") auto
  show ?case
  proof (cases "prefix old (c # cs)")
    case True
    with 2 obtain rest where c: "c = CHR 0x0A" and cs: "cs = ''- '' @ rest"
      by (auto simp: prefix_def)
    have d: "drop (length old) (c # cs) = rest" using 2 cs by simp
    from 2 True d have ih: "replace_from old new rest = unlines (hd (lines_of rest) # map bullet_line (tl (lines_of rest)))"
      by simp
    have l: "lines_of (c # cs) = [] # (''- '' @ hd (lines_of rest)) # tl (lines_of rest)"
      using lines_of_append [of "''- ''" rest] c cs by simp
    have "replace_from old new (c # cs) = new @ replace_from old new rest"
      using True 2 d by simp
    also have "\<dots> = CHR 0x0A # unlines ((bullet_glyph @ '' '' @ hd (lines_of rest)) # map bullet_line (tl (lines_of rest)))"
      using ih 2 unlines_app_hd [of "bullet_glyph @ '' ''" "hd (lines_of rest)"] by simp
    finally show ?thesis using l by (simp add: bullet_line_marker)
  next
    case False
    with 2 have ih: "replace_from old new cs = unlines (h # map bullet_line t)"
      using ht by simp
    have r: "replace_from old new (c # cs) = c # replace_from old new cs"
      using False by simp
    show ?thesis
    proof (cases "c = CHR 0x0A")
      case True
      with False 2 have "\<not> prefix ''- '' cs" by simp
      then have "bullet_line h = h"
        using hd_lines_prefix [of cs] ht by (simp add: bullet_line_def)
      then show ?thesis using r ih ht True by simp
    next
      case False
      then show ?thesis using r ih ht unlines_cons_hd [of c h "map bullet_line t"] by simp
    qed
  qed
qed

lemma convert_bullets_lines:
  "startswith text0 ''- '' \<Longrightarrow> convert_bullets text0 = unlines (map bullet_line (lines_of text0))"
proof -
  assume a: "startswith text0 ''- ''"
  then obtain rest where t: "text0 = ''- '' @ rest" by (auto simp: startswith_def prefix_def)
  have g: "hd (CHR 0x0A # ''- '') \<notin> set (bullet_glyph @ '' '')" by (simp add: bullet_glyph_def)
  have "convert_bullets text0 = replace_from (CHR 0x0A # ''- '') (CHR 0x0A # bullet_glyph @ '' '') ((bullet_glyph @ '' '') @ rest)"
    using a t by (simp add: convert_bullets_def py_replace_def)
  also have "\<dots> = (bullet_glyph @ '' '') @ unlines (hd (lines_of rest) # map bullet_line (tl (lines_of rest)))"
    using replace_from_append [OF _ g] replace_from_lines by simp
  also have "\<dots> = unlines (bullet_line (''- '' @ hd (lines_of rest)) # map bullet_line (tl (lines_of rest)))"
    using unlines_app_hd [of "bullet_glyph @ '' ''" "hd (lines_of rest)"] by (simp add: bullet_line_marker)
  also have "\<dots> = unlines (map bullet_line (lines_of text0))"
    using lines_of_append [of "''- ''" rest] t by simp
  finally show ?thesis .
qed

lemma convert_bullets_glyph:
  "startswith text0 ''- '' \<Longrightarrow> startswith (convert_bullets text0) (bullet_glyph @ '' '')"
proof -
  assume a: "startswith text0 ''- ''"
  have g: "hd (CHR 0x0A # ''- '') \<notin> set (bullet_glyph @ '' '')" by (simp add: bullet_glyph_def)
  have "convert_bullets text0 = replace_from (CHR 0x0A # ''- '') (CHR 0x0A # bullet_glyph @ '' '') ((bullet_glyph @ '' '') @ drop 2 text0)"
    using a by (simp add: convert_bullets_def py_replace_def)
  also have "\<dots> = (bullet_glyph @ '' '') @ replace_from (CHR 0x0A # ''- '') (CHR 0x0A # bullet_glyph @ '' '') (drop 2 text0)"
    using replace_from_append [OF _ g] by simp
  finally show ?thesis by (simp add: startswith_def)
qed

lemma convert_bullets_other: "\<not> startswith text0 ''- '' \<Longrightarrow> convert_bullets text0 = text0"
  by (simp add: convert_bullets_def)

lemma strip_markup_Nil: "strip_markup [] = []"
  by (simp add: strip_markup_def py_replace_def)

text \<open>
  C8, for the paragraphs whose text begins with the marker. When the text of a
  paragraph, trimmed and stripped of markup, begins with the dash-space marker (as it
  does whenever the trimmed paragraph begins with it), the paragraph is emitted with
  every line that begins with the marker, the first one and each one after a line
  feed, carrying the glyph in place of the dash; in particular the emitted text begins
  with the glyph.
\<close>

theorem bullets_converted:
  assumes "startswith (py_strip para) ''- '' \<or> startswith (strip_markup (py_strip para)) ''- ''"
  shows "render_paragraph para =
           [Paragraph (unlines (map bullet_line (lines_of (strip_markup (py_strip para)))))
              (paragraph_style (strip_markup (py_strip para)))] \<and>
         startswith (unlines (map bullet_line (lines_of (strip_markup (py_strip para)))))
           (bullet_glyph @ '' '')"
proof -
  let ?t = "strip_markup (py_strip para)"
  have m: "startswith ?t ''- ''" using assms marker_survives [of "py_strip para"] by blast
  have ne: "py_strip para \<noteq> []"
  proof
    assume "py_strip para = []"
    with m show False by (simp add: strip_markup_Nil startswith_def)
  qed
  have l: "convert_bullets ?t = unlines (map bullet_line (lines_of ?t))"
    using m by (rule convert_bullets_lines)
  have "startswith (convert_bullets ?t) (bullet_glyph @ '' '')"
    using m by (rule convert_bullets_glyph)
  with ne l show ?thesis by (simp add: render_paragraph_def Let_def)
qed

theorem bullets_converted_witness:
  "render_paragraph ''- point one\<newline>- point two'' =
     [Paragraph (bullet_glyph @ '' point one\<newline>'' @ bullet_glyph @ '' point two'') body_style] \<and>
   unlines (map bullet_line (lines_of (strip_markup (py_strip ''- point one\<newline>- point two'')))) =
     bullet_glyph @ '' point one\<newline>'' @ bullet_glyph @ '' point two'' \<and>
   render_paragraph ''*- a\<newline>- b'' =
     [Paragraph (bullet_glyph @ '' a\<newline>'' @ bullet_glyph @ '' b'') body_style] \<and>
   unlines (map bullet_line (lines_of (strip_markup (py_strip ''*- a\<newline>- b'')))) =
     bullet_glyph @ '' a\<newline>'' @ bullet_glyph @ '' b''"
proof -
  have h1: "startswith (py_strip ''- point one\<newline>- point two'') ''- ''" by code_simp
  have e1: "render_paragraph ''- point one\<newline>- point two'' =
     [Paragraph (bullet_glyph @ '' point one\<newline>'' @ bullet_glyph @ '' point two'') body_style]"
    by code_simp
  have h2: "startswith (strip_markup (py_strip ''*- a\<newline>- b'')) ''- ''" by code_simp
  have e2: "render_paragraph ''*- a\<newline>- b'' =
     [Paragraph (bullet_glyph @ '' a\<newline>'' @ bullet_glyph @ '' b'') body_style]"
    by code_simp
  from bullets_converted [of "''- point one\<newline>- point two''"] h1 e1
  have "unlines (map bullet_line (lines_of (strip_markup (py_strip ''- point one\<newline>- point two'')))) =
     bullet_glyph @ '' point one\<newline>'' @ bullet_glyph @ '' point two''"
    by simp
  moreover from bullets_converted [of "''*- a\<newline>- b''"] h2 e2
  have "unlines (map bullet_line (lines_of (strip_markup (py_strip ''*- a\<newline>- b'')))) =
     bullet_glyph @ '' a\<newline>'' @ bullet_glyph @ '' b''"
    by simp
  ultimately show ?thesis using e1 e2 by simp
qed

text \<open>
  C8, for every paragraph. A paragraph whose text does not begin with the marker is
  emitted as it is, so a line feed followed by the marker stays: after a lead-in line
  the lines \<open>- item\<close> keep their dash, and the emitted text is not the line-wise
  conversion.
\<close>

theorem lead_in_line_bullets_counterexample:
  "render_paragraph ''Intro:\<newline>- item one\<newline>- item two'' =
     [Paragraph ''Intro:\<newline>- item one\<newline>- item two'' body_style] \<and>
   unlines (map bullet_line (lines_of (strip_markup (py_strip ''Intro:\<newline>- item one\<newline>- item two'')))) =
     ''Intro:\<newline>'' @ bullet_glyph @ '' item one\<newline>'' @ bullet_glyph @ '' item two'' \<and>
   ''Intro:\<newline>- item one\<newline>- item two'' \<noteq>
     ''Intro:\<newline>'' @ bullet_glyph @ '' item one\<newline>'' @ bullet_glyph @ '' item two''"
  by code_simp

section \<open>Properties of the pipeline and of the start of the script\<close>

text \<open>
  C6. \<open>main\<close> runs the three stages in the order Gather, Rank, Elaborate, each on the
  world the stage before left; the context of Rank is the text Gather returned, the
  context of Elaborate is the text Rank returned, and the renderer gets the text
  Elaborate returned and nothing else. A failure of a stage ends the run.
\<close>

theorem stages_in_order:
  "main sv w =
     (case create_search_agent sv gather_query (PySome gather_context) w of
        (Inl e, w1) \<Rightarrow> (Inl e, w1)
      | (Inr (news_data, history1), w1) \<Rightarrow>
          (case create_search_agent sv rank_query news_data w1 of
             (Inl e, w2) \<Rightarrow> (Inl e, w2)
           | (Inr (ranked_news, history2), w2) \<Rightarrow>
               (case create_search_agent sv elaborate_query ranked_news w2 of
                  (Inl e, w3) \<Rightarrow> (Inl e, w3)
                | (Inr (detailed_summaries, history3), w3) \<Rightarrow>
                    generate_pdf_report sv detailed_summaries w3)))"
  by (simp add: main_def gather_techcrunch_news_def analyze_and_rank_news_def
      create_detailed_summaries_def split: prod.splits sum.splits)

text \<open>
  C9. Without the credential in the environment the script raises the configuration
  error at once: the result does not depend on the collaborators and the world is
  unchanged, so \<open>main\<close> is not run and no service is called.
\<close>

theorem missing_credential_is_fatal:
  "environ ''OLLAMA_API_KEY'' = None \<Longrightarrow>
   run_script environ sv w = (Inl (ValueError ''OLLAMA_API_KEY environment variable is required''), w)"
  by (simp add: run_script_def)

theorem missing_credential_is_fatal_witness:
  "run_script Map.empty (counting (stub reply_done (Inr []))) ((), 0) =
     (Inl (ValueError ''OLLAMA_API_KEY environment variable is required''), ((), 0))"
proof -
  have "(Map.empty :: string \<rightharpoonup> string) ''OLLAMA_API_KEY'' = None" by simp
  from missing_credential_is_fatal [OF this] show ?thesis .
qed

end
